theory Spec2Isabelle
  imports Main
begin

section \<open>Exceptions and outcomes\<close>

text \<open>
  The exceptions that the scraper module (\<^verbatim>\<open>scraper/step1_fixtures.py\<close>) and the library
  calls it makes can raise. \<open>ValueError\<close> and \<open>OverflowError\<close> carry their message, since
  the module raises \<open>ValueError\<close> in two places that only the message tells apart.
\<close>

datatype exn =
    ValueError string
  | OverflowError string
  | JSONDecodeError
  | FileNotFoundError
  | IsADirectoryError
  | NotADirectoryError
  | Exception string

text \<open>How a generator ends once it is drained: it returns, or an exception leaves it.\<close>

datatype outcome = StopIteration | Raised exn

section \<open>The calendar of \<^verbatim>\<open>datetime\<close>\<close>

text \<open>
  A naive \<^verbatim>\<open>datetime\<close> value of Python, to the second, on the proleptic Gregorian
  calendar. \<^verbatim>\<open>MINYEAR\<close> is 1 and \<^verbatim>\<open>MAXYEAR\<close> is 9999.
\<close>

record datetime =
  year :: nat
  month :: nat
  day :: nat
  hour :: nat
  minute :: nat
  second :: nat

definition MINYEAR :: nat where "MINYEAR = 1"
definition MAXYEAR :: nat where "MAXYEAR = 9999"

definition is_leap :: "nat \<Rightarrow> bool" where
  "is_leap y = (y mod 4 = 0 \<and> (y mod 100 \<noteq> 0 \<or> y mod 400 = 0))"

definition days_in_month :: "nat \<Rightarrow> nat \<Rightarrow> nat" where
  "days_in_month y m =
     (if m = 2 then (if is_leap y then 29 else 28)
      else if m = 4 \<or> m = 6 \<or> m = 9 \<or> m = 11 then 30
      else 31)"

definition days_before_year :: "nat \<Rightarrow> nat" where
  "days_before_year y =
     (let p = y - 1 in p * 365 + p div 4 + p div 400 - p div 100)"

definition days_before_month :: "nat \<Rightarrow> nat \<Rightarrow> nat" where
  "days_before_month y m = (\<Sum>i\<leftarrow>[1..<m]. days_in_month y i)"

text \<open>\<^verbatim>\<open>toordinal\<close>: the day number, with 0001-01-01 as day 1.\<close>

definition toordinal :: "datetime \<Rightarrow> nat" where
  "toordinal dt = days_before_year (year dt) + days_before_month (year dt) (month dt) + day dt"

text \<open>What the constructor of \<^verbatim>\<open>datetime\<close> accepts.\<close>

definition valid_date :: "nat \<Rightarrow> nat \<Rightarrow> nat \<Rightarrow> bool" where
  "valid_date y m d =
     (MINYEAR \<le> y \<and> y \<le> MAXYEAR \<and> 1 \<le> m \<and> m \<le> 12 \<and> 1 \<le> d \<and> d \<le> days_in_month y m)"

definition valid_datetime :: "datetime \<Rightarrow> bool" where
  "valid_datetime dt =
     (valid_date (year dt) (month dt) (day dt) \<and> hour dt < 24 \<and> minute dt < 60 \<and> second dt < 60)"

definition midnight :: "nat \<Rightarrow> nat \<Rightarrow> nat \<Rightarrow> datetime" where
  "midnight y m d = \<lparr>year = y, month = m, day = d, hour = 0, minute = 0, second = 0\<rparr>"

text \<open>
  Comparison of naive datetimes (\<^verbatim>\<open>range_start > range_end\<close>,
  \<^verbatim>\<open>current_date <= range_end\<close>): lexicographic on the fields.
\<close>

definition dt_key :: "datetime \<Rightarrow> nat \<times> nat \<times> nat \<times> nat \<times> nat \<times> nat" where
  "dt_key dt = (year dt, month dt, day dt, hour dt, minute dt, second dt)"

fun key_less :: "nat \<times> nat \<times> nat \<times> nat \<times> nat \<times> nat \<Rightarrow> nat \<times> nat \<times> nat \<times> nat \<times> nat \<times> nat \<Rightarrow> bool" where
  "key_less (y, m, d, h, mi, s) (y', m', d', h', mi', s') =
     (y < y' \<or> (y = y' \<and> (m < m' \<or> (m = m' \<and> (d < d' \<or> (d = d' \<and>
        (h < h' \<or> (h = h' \<and> (mi < mi' \<or> (mi = mi' \<and> s < s'))))))))))"

definition dt_less :: "datetime \<Rightarrow> datetime \<Rightarrow> bool" where
  "dt_less a b = key_less (dt_key a) (dt_key b)"

definition dt_le :: "datetime \<Rightarrow> datetime \<Rightarrow> bool" where
  "dt_le a b = (\<not> dt_less b a)"

text \<open>
  \<^verbatim>\<open>current_date + timedelta(days=1)\<close>: the same time of day on the next calendar day.
  Past 9999-12-31 the addition raises \<^verbatim>\<open>OverflowError\<close>.
\<close>

definition plus_one_day :: "datetime \<Rightarrow> exn + datetime" where
  "plus_one_day dt =
     (if day dt < days_in_month (year dt) (month dt) then Inr (dt\<lparr>day := day dt + 1\<rparr>)
      else if month dt < 12 then Inr (dt\<lparr>month := month dt + 1, day := 1\<rparr>)
      else if year dt < MAXYEAR then Inr (dt\<lparr>year := year dt + 1, month := 1, day := 1\<rparr>)
      else Inl (OverflowError ''date value out of range''))"

section \<open>Reading and writing ISO dates\<close>

definition digit_char :: "nat \<Rightarrow> char" where
  "digit_char n = char_of (48 + n)"

definition is_digit :: "char \<Rightarrow> bool" where
  "is_digit c = ((48::nat) \<le> of_char c \<and> (of_char c :: nat) \<le> 57)"

definition digit_val :: "char \<Rightarrow> nat" where
  "digit_val c = of_char c - 48"

text \<open>A run of decimal digits read as a number; anything else is refused.\<close>

definition parse_digits :: "string \<Rightarrow> nat option" where
  "parse_digits s =
     (if s \<noteq> [] \<and> list_all is_digit s
      then Some (foldl (\<lambda>acc c. acc * 10 + digit_val c) 0 s)
      else None)"

definition pad2 :: "nat \<Rightarrow> string" where
  "pad2 n = [digit_char (n div 10 mod 10), digit_char (n mod 10)]"

definition pad4 :: "nat \<Rightarrow> string" where
  "pad4 n = [digit_char (n div 1000 mod 10), digit_char (n div 100 mod 10),
             digit_char (n div 10 mod 10), digit_char (n mod 10)]"

text \<open>
  \<^verbatim>\<open>strftime("%Y-%m-%d")\<close>, with \<^verbatim>\<open>%Y\<close> as the four digits the library documents.
\<close>

definition strftime_Ymd :: "datetime \<Rightarrow> string" where
  "strftime_Ymd dt = pad4 (year dt) @ ''-'' @ pad2 (month dt) @ ''-'' @ pad2 (day dt)"

text \<open>The date part of an ISO string: exactly \<^verbatim>\<open>YYYY-MM-DD\<close>.\<close>

definition parse_isoformat_date :: "string \<Rightarrow> (nat \<times> nat \<times> nat) option" where
  "parse_isoformat_date s =
     (if length s = 10 \<and> s ! 4 = CHR ''-'' \<and> s ! 7 = CHR ''-'' then
        (case (parse_digits (take 4 s), parse_digits (take 2 (drop 5 s)), parse_digits (drop 8 s)) of
           (Some y, Some m, Some d) \<Rightarrow> Some (y, m, d)
         | _ \<Rightarrow> None)
      else None)"

text \<open>The time part: \<^verbatim>\<open>HH\<close>, \<^verbatim>\<open>HH:MM\<close> or \<^verbatim>\<open>HH:MM:SS\<close>.\<close>

definition parse_isoformat_time :: "string \<Rightarrow> (nat \<times> nat \<times> nat) option" where
  "parse_isoformat_time s =
     (if length s = 2 then
        (case parse_digits s of Some h \<Rightarrow> Some (h, 0, 0) | None \<Rightarrow> None)
      else if length s = 5 \<and> s ! 2 = CHR '':'' then
        (case (parse_digits (take 2 s), parse_digits (drop 3 s)) of
           (Some h, Some mi) \<Rightarrow> Some (h, mi, 0)
         | _ \<Rightarrow> None)
      else if length s = 8 \<and> s ! 2 = CHR '':'' \<and> s ! 5 = CHR '':'' then
        (case (parse_digits (take 2 s), parse_digits (take 2 (drop 3 s)), parse_digits (drop 6 s)) of
           (Some h, Some mi, Some sec) \<Rightarrow> Some (h, mi, sec)
         | _ \<Rightarrow> None)
      else None)"

text \<open>
  \<^verbatim>\<open>datetime.fromisoformat\<close>, on the strings that every release of the library reads
  alike: a date \<^verbatim>\<open>YYYY-MM-DD\<close>, alone or followed by one separator character (any) and a
  time of day to the second. \<open>None\<close> stands for the \<^verbatim>\<open>ValueError\<close> of the library.
  Fractions of a second, UTC offsets and the further ISO 8601 spellings that later
  releases also read are not part of this model.
\<close>

definition fromisoformat :: "string \<Rightarrow> datetime option" where
  "fromisoformat s =
     (case parse_isoformat_date (take 10 s) of
        None \<Rightarrow> None
      | Some (y, m, d) \<Rightarrow>
          (case (if length s \<le> 10 then Some (0, 0, 0) else parse_isoformat_time (drop 11 s)) of
             None \<Rightarrow> None
           | Some (h, mi, sec) \<Rightarrow>
               (let dt = \<lparr>year = y, month = m, day = d, hour = h, minute = mi, second = sec\<rparr>
                in if valid_datetime dt then Some dt else None)))"

section \<open>The generator of daily date strings\<close>

text \<open>
  \<^verbatim>\<open>_generate_daily_date_strings\<close> is a generator function. Its body runs when the consumer
  asks for the first value; the model gives what a consumer that drains the generator
  sees: the strings yielded, in order, and how the generator ended.

  The \<^verbatim>\<open>while\<close> loop first:
  \<^verbatim>\<open>
    while current_date <= range_end:
        formatted_date_string = current_date.strftime("%Y-%m-%d")
        yield formatted_date_string
        current_date = current_date + timedelta(days=1)
  \<close>
\<close>

function daily_loop :: "datetime \<Rightarrow> datetime \<Rightarrow> string list \<times> outcome" where
  "daily_loop current_date range_end =
     (if dt_le current_date range_end then
        (case plus_one_day current_date of
           Inl e \<Rightarrow> ([strftime_Ymd current_date], Raised e)
         | Inr next_date \<Rightarrow>
             (let (ys, r) = daily_loop next_date range_end
              in (strftime_Ymd current_date # ys, r)))
      else ([], StopIteration))"
  by pat_completeness auto
termination
proof (relation "measures [\<lambda>(c, e). year e + 1 - year c, \<lambda>(c, e). 13 - month c, \<lambda>(c, e). 32 - day c]")
  show "wf (measures [\<lambda>(c, e). year e + 1 - year c, \<lambda>(c, e). 13 - month c, \<lambda>(c, e). 32 - day c])"
    by simp
next
  fix current_date range_end next_date
  assume le: "dt_le current_date range_end"
    and nx: "plus_one_day current_date = Inr next_date"
  have yle: "year current_date \<le> year range_end"
    using le by (auto simp: dt_le_def dt_less_def dt_key_def)
  have dim: "days_in_month (year current_date) (month current_date) \<le> 31"
    by (simp add: days_in_month_def)
  show "((next_date, range_end), (current_date, range_end))
      \<in> measures [\<lambda>(c, e). year e + 1 - year c, \<lambda>(c, e). 13 - month c, \<lambda>(c, e). 32 - day c]"
    using nx yle dim
    by (auto simp: plus_one_day_def split: if_splits)
qed

definition invalid_format_message :: "string \<Rightarrow> string \<Rightarrow> string" where
  "invalid_format_message s e =
     ''Invalid date format. Expected '' @ [CHR 0x27] @ ''YYYY-MM-DD'' @ [CHR 0x27] @
     '', got start='' @ [CHR 0x27] @ s @ [CHR 0x27] @ '', end='' @ [CHR 0x27] @ e @ [CHR 0x27]"

definition start_after_end_message :: "string \<Rightarrow> string \<Rightarrow> string" where
  "start_after_end_message s e = ''Start date '' @ s @ '' is after end date '' @ e"

text \<open>
  The whole body. Both strings are parsed inside one \<^verbatim>\<open>try\<close>, whose handler turns the
  library's \<^verbatim>\<open>ValueError\<close> into the module's own; then the order of the two dates is
  checked; then the loop runs from the start date.
\<close>

definition generate_daily_date_strings :: "string \<Rightarrow> string \<Rightarrow> string list \<times> outcome" where
  "generate_daily_date_strings start_date_string end_date_string =
     (case fromisoformat start_date_string of
        None \<Rightarrow> ([], Raised (ValueError (invalid_format_message start_date_string end_date_string)))
      | Some range_start \<Rightarrow>
          (case fromisoformat end_date_string of
             None \<Rightarrow> ([], Raised (ValueError (invalid_format_message start_date_string end_date_string)))
           | Some range_end \<Rightarrow>
               if dt_less range_end range_start
               then ([], Raised (ValueError (start_after_end_message start_date_string end_date_string)))
               else daily_loop range_start range_end))"

section \<open>JSON documents and their text\<close>

text \<open>
  The values that \<^verbatim>\<open>json.load\<close> returns and \<^verbatim>\<open>json.dump\<close> writes: \<open>JNull\<close> is Python's
  \<^verbatim>\<open>None\<close>, \<open>JList\<close> a \<^verbatim>\<open>list\<close>, \<open>JDict\<close> a \<^verbatim>\<open>dict\<close> with string keys, in insertion
  order. Strings are over the 256 characters of \<open>char\<close>, read as the code points 0 to 255.
  Floating-point numbers, and with them the literals \<^verbatim>\<open>NaN\<close> and \<^verbatim>\<open>Infinity\<close>, are left out:
  the decoder below refuses them.
\<close>

datatype json =
    JNull
  | JBool bool
  | JInt int
  | JStr string
  | JList "json list"
  | JDict "(string \<times> json) list"

abbreviation (input) dquote :: char where "dquote \<equiv> CHR 0x22"
abbreviation (input) backslash :: char where "backslash \<equiv> CHR 0x5C"

text \<open>A Python \<^verbatim>\<open>dict\<close> holds each key once: only such values are documents.\<close>

fun wf_json :: "json \<Rightarrow> bool" where
  "wf_json (JList xs) = (\<forall>x \<in> set xs. wf_json x)"
| "wf_json (JDict ps) = (distinct (map fst ps) \<and> (\<forall>(k, v) \<in> set ps. wf_json v))"
| "wf_json _ = True"

subsection \<open>Writing: \<^verbatim>\<open>json.dump\<close> with its default settings\<close>

definition hex_digit :: "nat \<Rightarrow> char" where
  "hex_digit n = (if n < 10 then char_of (48 + n) else char_of (87 + n))"

text \<open>
  \<^verbatim>\<open>ensure_ascii\<close> is on: a quote, a backslash and every character outside the printable
  ASCII range is written as an escape.
\<close>

definition escape_char :: "char \<Rightarrow> string" where
  "escape_char c =
     (if c = dquote then [backslash, dquote]
      else if c = backslash then [backslash, backslash]
      else if c = CHR 0x0A then [backslash, CHR ''n'']
      else if c = CHR 0x0D then [backslash, CHR ''r'']
      else if c = CHR 0x09 then [backslash, CHR ''t'']
      else if c = CHR 0x08 then [backslash, CHR ''b'']
      else if c = CHR 0x0C then [backslash, CHR ''f'']
      else if (of_char c :: nat) < 32 \<or> (of_char c :: nat) > 126 then
        [backslash, CHR ''u'', CHR ''0'', CHR ''0'',
         hex_digit (of_char c div 16), hex_digit (of_char c mod 16)]
      else [c])"

definition encode_basestring_ascii :: "string \<Rightarrow> string" where
  "encode_basestring_ascii s = dquote # concat (map escape_char s) @ [dquote]"

fun show_nat :: "nat \<Rightarrow> string" where
  "show_nat n = (if n < 10 then [digit_char n] else show_nat (n div 10) @ [digit_char (n mod 10)])"

declare show_nat.simps [simp del]

definition show_int :: "int \<Rightarrow> string" where
  "show_int i = (if i < 0 then CHR ''-'' # show_nat (nat (- i)) else show_nat (nat i))"

fun join_comma :: "string list \<Rightarrow> string" where
  "join_comma [] = []"
| "join_comma [x] = x"
| "join_comma (x # y # ys) = x @ '', '' @ join_comma (y # ys)"

fun json_dumps :: "json \<Rightarrow> string" where
  "json_dumps JNull = ''null''"
| "json_dumps (JBool b) = (if b then ''true'' else ''false'')"
| "json_dumps (JInt i) = show_int i"
| "json_dumps (JStr s) = encode_basestring_ascii s"
| "json_dumps (JList xs) = ''['' @ join_comma (map json_dumps xs) @ '']''"
| "json_dumps (JDict ps) =
     ''{'' @ join_comma (map (\<lambda>(k, v). encode_basestring_ascii k @ '': '' @ json_dumps v) ps) @ ''}''"

subsection \<open>Reading: \<^verbatim>\<open>json.load\<close>\<close>

definition is_ws :: "char \<Rightarrow> bool" where
  "is_ws c = (c = CHR '' '' \<or> c = CHR 0x09 \<or> c = CHR 0x0A \<or> c = CHR 0x0D)"

definition skip_ws :: "string \<Rightarrow> string" where
  "skip_ws s = dropWhile is_ws s"

definition hex_val :: "char \<Rightarrow> nat option" where
  "hex_val c =
     (let n = (of_char c :: nat) in
      if 48 \<le> n \<and> n \<le> 57 then Some (n - 48)
      else if 97 \<le> n \<and> n \<le> 102 then Some (n - 87)
      else if 65 \<le> n \<and> n \<le> 70 then Some (n - 55)
      else None)"

definition parse_hex4 :: "char \<Rightarrow> char \<Rightarrow> char \<Rightarrow> char \<Rightarrow> nat option" where
  "parse_hex4 a b c d =
     (case (hex_val a, hex_val b, hex_val c, hex_val d) of
        (Some w, Some x, Some y, Some z) \<Rightarrow> Some (((w * 16 + x) * 16 + y) * 16 + z)
      | _ \<Rightarrow> None)"

definition unescape :: "char \<Rightarrow> char option" where
  "unescape e =
     (if e = dquote then Some dquote
      else if e = backslash then Some backslash
      else if e = CHR ''/'' then Some (CHR ''/'')
      else if e = CHR ''b'' then Some (CHR 0x08)
      else if e = CHR ''f'' then Some (CHR 0x0C)
      else if e = CHR ''n'' then Some (CHR 0x0A)
      else if e = CHR ''r'' then Some (CHR 0x0D)
      else if e = CHR ''t'' then Some (CHR 0x09)
      else None)"

definition cons_result :: "char \<Rightarrow> (string \<times> string) option \<Rightarrow> (string \<times> string) option" where
  "cons_result c r = (case r of None \<Rightarrow> None | Some (s, rest) \<Rightarrow> Some (c # s, rest))"

text \<open>
  A string literal, from just after its opening quote: the decoded string and the text
  after the closing quote. A raw control character and a bad escape are refused, and so
  is an escape \<^verbatim>\<open>\uXXXX\<close> above code point 255, which a \<open>char\<close> cannot hold.
\<close>

fun scanstring :: "string \<Rightarrow> (string \<times> string) option" where
  "scanstring [] = None"
| "scanstring (c # cs) =
     (if c = dquote then Some ([], cs)
      else if c = backslash then
        (case cs of
           [] \<Rightarrow> None
         | e # r \<Rightarrow>
             if e = CHR ''u'' then
               (case r of
                  h1 # h2 # h3 # h4 # r' \<Rightarrow>
                    (case parse_hex4 h1 h2 h3 h4 of
                       None \<Rightarrow> None
                     | Some n \<Rightarrow> if n < 256 then cons_result (char_of n) (scanstring r') else None)
                | _ \<Rightarrow> None)
             else
               (case unescape e of
                  None \<Rightarrow> None
                | Some ch \<Rightarrow> cons_result ch (scanstring r)))
      else if (of_char c :: nat) < 32 then None
      else cons_result c (scanstring cs))"

definition digits_value :: "string \<Rightarrow> nat" where
  "digits_value ds = foldl (\<lambda>acc c. acc * 10 + digit_val c) 0 ds"

text \<open>
  A number: an optional minus sign, then \<^verbatim>\<open>0\<close> or a run of digits that does not start
  with \<^verbatim>\<open>0\<close>. A fraction or an exponent would make it a float, which the model refuses.
\<close>

definition scan_number :: "string \<Rightarrow> (json \<times> string) option" where
  "scan_number s =
     (let neg = (s \<noteq> [] \<and> hd s = CHR ''-'');
          s1 = (if neg then tl s else s);
          ds = takeWhile is_digit s1;
          r = dropWhile is_digit s1;
          ip = (if ds \<noteq> [] \<and> hd ds = CHR ''0'' then [CHR ''0''] else ds);
          r' = (if ds \<noteq> [] \<and> hd ds = CHR ''0'' then tl ds @ r else r)
      in if ip = [] then None
         else if r' \<noteq> [] \<and> (hd r' = CHR ''.'' \<or> hd r' = CHR ''e'' \<or> hd r' = CHR ''E'') then None
         else Some (JInt (if neg then - int (digits_value ip) else int (digits_value ip)), r'))"

text \<open>
  Building the \<^verbatim>\<open>dict\<close> from the pairs read: a key that comes again keeps its place and
  takes the later value.
\<close>

fun dict_set :: "string \<Rightarrow> json \<Rightarrow> (string \<times> json) list \<Rightarrow> (string \<times> json) list" where
  "dict_set k v [] = [(k, v)]"
| "dict_set k v (p # ps) = (if fst p = k then (k, v) # ps else p # dict_set k v ps)"

definition py_dict :: "(string \<times> json) list \<Rightarrow> (string \<times> json) list" where
  "py_dict ps = foldl (\<lambda>d (k, v). dict_set k v d) [] ps"

text \<open>
  The decoder proper. The first argument bounds the depth of the calls; \<open>json_loads\<close>
  below starts it above the length of the text, which no nesting can exceed.
  \<open>scan_array\<close> reads from the first element of a non-empty list to the closing bracket,
  \<open>scan_object\<close> from the first key of a non-empty object to the closing brace.
\<close>

fun scan_once :: "nat \<Rightarrow> string \<Rightarrow> (json \<times> string) option"
  and scan_array :: "nat \<Rightarrow> string \<Rightarrow> (json list \<times> string) option"
  and scan_object :: "nat \<Rightarrow> string \<Rightarrow> ((string \<times> json) list \<times> string) option"
where
  "scan_once 0 s = None"
| "scan_once (Suc n) s =
     (case s of
        [] \<Rightarrow> None
      | c # cs \<Rightarrow>
          if c = dquote then
            (case scanstring cs of None \<Rightarrow> None | Some (k, r) \<Rightarrow> Some (JStr k, r))
          else if c = CHR ''{'' then
            (case skip_ws cs of
               [] \<Rightarrow> None
             | c' # r \<Rightarrow>
                 if c' = CHR ''}'' then Some (JDict [], r)
                 else (case scan_object n (c' # r) of
                         None \<Rightarrow> None
                       | Some (ps, r') \<Rightarrow> Some (JDict (py_dict ps), r')))
          else if c = CHR ''['' then
            (case skip_ws cs of
               [] \<Rightarrow> None
             | c' # r \<Rightarrow>
                 if c' = CHR '']'' then Some (JList [], r)
                 else (case scan_array n (c' # r) of
                         None \<Rightarrow> None
                       | Some (vs, r') \<Rightarrow> Some (JList vs, r')))
          else if take 4 s = ''null'' then Some (JNull, drop 4 s)
          else if take 4 s = ''true'' then Some (JBool True, drop 4 s)
          else if take 5 s = ''false'' then Some (JBool False, drop 5 s)
          else scan_number s)"
| "scan_array 0 s = None"
| "scan_array (Suc n) s =
     (case scan_once n s of
        None \<Rightarrow> None
      | Some (v, r) \<Rightarrow>
          (case skip_ws r of
             [] \<Rightarrow> None
           | c # r' \<Rightarrow>
               if c = CHR '']'' then Some ([v], r')
               else if c = CHR '','' then
                 (case scan_array n (skip_ws r') of
                    None \<Rightarrow> None
                  | Some (vs, r'') \<Rightarrow> Some (v # vs, r''))
               else None))"
| "scan_object 0 s = None"
| "scan_object (Suc n) s =
     (case s of
        [] \<Rightarrow> None
      | c # cs \<Rightarrow>
          if c \<noteq> dquote then None
          else
            (case scanstring cs of
               None \<Rightarrow> None
             | Some (k, r) \<Rightarrow>
                 (case skip_ws r of
                    [] \<Rightarrow> None
                  | c1 # r1 \<Rightarrow>
                      if c1 \<noteq> CHR '':'' then None
                      else
                        (case scan_once n (skip_ws r1) of
                           None \<Rightarrow> None
                         | Some (v, r2) \<Rightarrow>
                             (case skip_ws r2 of
                                [] \<Rightarrow> None
                              | c2 # r3 \<Rightarrow>
                                  if c2 = CHR ''}'' then Some ([(k, v)], r3)
                                  else if c2 = CHR '','' then
                                    (case scan_object n (skip_ws r3) of
                                       None \<Rightarrow> None
                                     | Some (ps, r4) \<Rightarrow> Some ((k, v) # ps, r4))
                                  else None)))))"

text \<open>
  The whole text is one value, with white space allowed around it; \<open>None\<close> stands for
  \<^verbatim>\<open>json.JSONDecodeError\<close>.
\<close>

definition json_loads :: "string \<Rightarrow> json option" where
  "json_loads s =
     (case scan_once (Suc (length s)) (skip_ws s) of
        None \<Rightarrow> None
      | Some (v, r) \<Rightarrow> if skip_ws r = [] then Some v else None)"

section \<open>The response cache\<close>

subsection \<open>Paths and the file system\<close>

text \<open>
  A path is the list of its components, as \<^verbatim>\<open>pathlib\<close> splits it: empty components and
  \<^verbatim>\<open>.\<close> are dropped, and an absolute path starts with the component \<^verbatim>\<open>/\<close>. A relative path
  is read from the working directory, which is the empty path.
\<close>

type_synonym path = "string list"

fun split_slash :: "string \<Rightarrow> string list" where
  "split_slash [] = [[]]"
| "split_slash (c # cs) =
     (if c = CHR ''/'' then [] # split_slash cs
      else (case split_slash cs of [] \<Rightarrow> [[c]] | x # xs \<Rightarrow> (c # x) # xs))"

definition is_absolute :: "string \<Rightarrow> bool" where
  "is_absolute s = (s \<noteq> [] \<and> hd s = CHR ''/'')"

definition path_parts :: "string \<Rightarrow> path" where
  "path_parts s =
     (if is_absolute s then [''/''] else []) @ filter (\<lambda>c. c \<noteq> [] \<and> c \<noteq> ''.'') (split_slash s)"

text \<open>The operator \<^verbatim>\<open>/\<close> of \<^verbatim>\<open>pathlib\<close>: an absolute right operand replaces the left one.\<close>

definition joinpath :: "path \<Rightarrow> string \<Rightarrow> path" where
  "joinpath base s = (if is_absolute s then path_parts s else base @ path_parts s)"

definition parent :: "path \<Rightarrow> path" where
  "parent p = butlast p"

text \<open>
  The file system: which directories exist, and the text of every regular file. Names
  are taken to be admissible to the operating system, and every directory that exists
  to be readable and writable.
\<close>

record filesystem =
  dirs :: "path set"
  files :: "path \<rightharpoonup> string"

definition is_dir :: "filesystem \<Rightarrow> path \<Rightarrow> bool" where
  "is_dir fs p = (p = [] \<or> p = [''/''] \<or> p \<in> dirs fs)"

definition path_exists :: "filesystem \<Rightarrow> path \<Rightarrow> bool" where
  "path_exists fs p = (files fs p \<noteq> None \<or> is_dir fs p)"

text \<open>\<^verbatim>\<open>open(p)\<close> and reading the file to its end.\<close>

definition open_r :: "filesystem \<Rightarrow> path \<Rightarrow> exn + string" where
  "open_r fs p =
     (case files fs p of
        Some text \<Rightarrow> Inr text
      | None \<Rightarrow> if is_dir fs p then Inl IsADirectoryError else Inl FileNotFoundError)"

text \<open>
  \<^verbatim>\<open>open(p, "w")\<close>: the file is created, or emptied if it is there already, as soon as it
  is opened. The directory that is to hold it must exist.
\<close>

definition open_w :: "filesystem \<Rightarrow> path \<Rightarrow> exn + filesystem" where
  "open_w fs p =
     (if is_dir fs p then Inl IsADirectoryError
      else if is_dir fs (parent p) then Inr (fs\<lparr>files := (files fs)(p \<mapsto> [])\<rparr>)
      else if files fs (parent p) \<noteq> None then Inl NotADirectoryError
      else Inl FileNotFoundError)"

text \<open>Writing to an open file appends to what it holds.\<close>

definition write_text :: "filesystem \<Rightarrow> path \<Rightarrow> string \<Rightarrow> filesystem" where
  "write_text fs p s =
     fs\<lparr>files := (files fs)(p \<mapsto> (case files fs p of None \<Rightarrow> s | Some old \<Rightarrow> old @ s))\<rparr>"

subsection \<open>The module's cache directory\<close>

text \<open>
  \<^verbatim>\<open>CACHE_DIR = Path("DEFAULT_CACHE_DIR")\<close>: the directory is named by the string
  literal, not by the value of \<^verbatim>\<open>DEFAULT_CACHE_DIR\<close>. Importing the module creates it
  (\<^verbatim>\<open>CACHE_DIR.mkdir(exist_ok=True, parents=True)\<close>).
\<close>

definition CACHE_DIR :: path where
  "CACHE_DIR = path_parts ''DEFAULT_CACHE_DIR''"

definition import_module :: "filesystem \<Rightarrow> filesystem" where
  "import_module fs = fs\<lparr>dirs := insert CACHE_DIR (dirs fs)\<rparr>"

text \<open>The file system of a fresh checkout once the module is imported.\<close>

definition fresh_fs :: filesystem where
  "fresh_fs = import_module \<lparr>dirs = {}, files = Map.empty\<rparr>"

text \<open>\<^verbatim>\<open>cached_file = CACHE_DIR / f"{body}.json"\<close>, in both functions.\<close>

definition cached_file :: "string \<Rightarrow> path" where
  "cached_file body = joinpath CACHE_DIR (body @ ''.json'')"

subsection \<open>\<^verbatim>\<open>_load_file_from_cache\<close> and \<^verbatim>\<open>_save_to_cache\<close>\<close>

text \<open>
  \<^verbatim>\<open>
  def _load_file_from_cache(body: str) -> dict | None:
      cached_file = CACHE_DIR / f"{body}.json"
      if cached_file.exists():
          with open(cached_file) as f:
              return json.load(f)
      else:
          return None
  \<close>
  The value returned on a miss is \<^verbatim>\<open>None\<close>, that is \<open>JNull\<close>.
\<close>

definition load_file_from_cache :: "filesystem \<Rightarrow> string \<Rightarrow> exn + json" where
  "load_file_from_cache fs body =
     (if path_exists fs (cached_file body) then
        (case open_r fs (cached_file body) of
           Inl e \<Rightarrow> Inl e
         | Inr text \<Rightarrow>
             (case json_loads text of None \<Rightarrow> Inl JSONDecodeError | Some v \<Rightarrow> Inr v))
      else Inr JNull)"

text \<open>
  \<^verbatim>\<open>
  def _save_to_cache(body: str, data: dict) -> None:
      cached_file = CACHE_DIR / f"{body}.json"
      with open(cached_file, "w", encoding="utf-8") as f:
          json.dump(data, f)
  \<close>
  The file is opened, which empties it, and the text of the document is then written to
  it. \<open>save_to_cache_upto n\<close> is the same call stopped when only the first \<open>n\<close>
  characters of the text have reached the file; \<open>save_to_cache\<close> is the call that runs
  to its end.
  The text that \<^verbatim>\<open>json.dump\<close> writes is ASCII, so the encoding named here and the default
  one of the reading \<^verbatim>\<open>open\<close> give the same characters.
\<close>

definition save_to_cache_upto :: "nat \<Rightarrow> filesystem \<Rightarrow> string \<Rightarrow> json \<Rightarrow> exn + filesystem" where
  "save_to_cache_upto n fs body data =
     (case open_w fs (cached_file body) of
        Inl e \<Rightarrow> Inl e
      | Inr fs' \<Rightarrow> Inr (write_text fs' (cached_file body) (take n (json_dumps data))))"

definition save_to_cache :: "filesystem \<Rightarrow> string \<Rightarrow> json \<Rightarrow> exn + filesystem" where
  "save_to_cache fs body data =
     (case open_w fs (cached_file body) of
        Inl e \<Rightarrow> Inl e
      | Inr fs' \<Rightarrow> Inr (write_text fs' (cached_file body) (json_dumps data)))"


section \<open>Token capture\<close>

text \<open>What the handler reads of a browser request: its URL and its headers.\<close>

record request =
  req_url :: "string option"
  req_headers :: "(string \<times> string) list"

record TokenCapture =
  target_domain :: string
  captured_token :: "string option"

definition TokenCapture_init :: "string \<Rightarrow> TokenCapture" where
  "TokenCapture_init domain = \<lparr>target_domain = domain, captured_token = None\<rparr>"

text \<open>Python's truth value of an optional string: \<^verbatim>\<open>None\<close> and the empty string are false.\<close>

definition truthy :: "string option \<Rightarrow> bool" where
  "truthy x = (case x of None \<Rightarrow> False | Some s \<Rightarrow> s \<noteq> [])"

text \<open>\<^verbatim>\<open>needle in hay\<close> on strings.\<close>

fun contains :: "string \<Rightarrow> string \<Rightarrow> bool" where
  "contains needle [] = (needle = [])"
| "contains needle (c # cs) = (take (length needle) (c # cs) = needle \<or> contains needle cs)"

definition get_request_url :: "TokenCapture \<Rightarrow> request \<Rightarrow> string option" where
  "get_request_url self r = req_url r"

text \<open>
  The bodies of \<^verbatim>\<open>_get_auth_header\<close> and \<^verbatim>\<open>_is_valid_bearer_token\<close> are \<^verbatim>\<open>pass\<close>: both
  return \<^verbatim>\<open>None\<close>, whatever they are given.
\<close>

definition get_auth_header :: "TokenCapture \<Rightarrow> request \<Rightarrow> string option" where
  "get_auth_header self r = None"

definition is_valid_bearer_token :: "TokenCapture \<Rightarrow> string \<Rightarrow> bool option" where
  "is_valid_bearer_token self auth_header = None"

text \<open>
  \<^verbatim>\<open>
  async def handle_request(self, request) -> None:
      if self.captured_token:
          return
      url = self._get_request_url(request)
      if not url or self.target_domain not in url:
          return
      author_header = self._get_auth_header(request)
      if not author_header:
          return
      if self._is_valid_bearer_token(author_header):
          self.captured_token = author_header
  \<close>
\<close>

definition handle_request :: "TokenCapture \<Rightarrow> request \<Rightarrow> TokenCapture" where
  "handle_request self r =
     (if truthy (captured_token self) then self
      else
        (case get_request_url self r of
           None \<Rightarrow> self
         | Some u \<Rightarrow>
             if u = [] \<or> \<not> contains (target_domain self) u then self
             else
               (case get_auth_header self r of
                  None \<Rightarrow> self
                | Some author_header \<Rightarrow>
                    if author_header = [] then self
                    else if is_valid_bearer_token self author_header = Some True
                    then self\<lparr>captured_token := Some author_header\<rparr>
                    else self)))"

definition get_token :: "TokenCapture \<Rightarrow> string option" where
  "get_token self = captured_token self"

text \<open>The handler is called once for each request the page sends, in order.\<close>

definition observe :: "TokenCapture \<Rightarrow> request list \<Rightarrow> TokenCapture" where
  "observe self rs = foldl handle_request self rs"

text \<open>
  \<^verbatim>\<open>_fetch_token_via_playwright\<close>, given the requests that the browser session sends
  before it is closed: the token the handler holds then, or the exception raised when
  it holds none.
\<close>

definition fetch_token_via_playwright :: "string \<Rightarrow> request list \<Rightarrow> exn + string" where
  "fetch_token_via_playwright api_domain rs =
     (case get_token (observe (TokenCapture_init api_domain) rs) of
        None \<Rightarrow> Inl (Exception ''Failed to capture token'')
      | Some captured \<Rightarrow>
          if captured = [] then Inl (Exception ''Failed to capture token'') else Inr captured)"

section \<open>The fetch layer\<close>

text \<open>
  What a fetch can touch: the file system with the cache, and the network. \<open>transport\<close>
  is what the server would answer to a request (URL and token): a status code and a
  body; \<open>sent\<close> lists the requests made so far.
\<close>

record world =
  disk :: filesystem
  transport :: "string \<times> string \<Rightarrow> nat \<times> string"
  sent :: "(string \<times> string) list"

text \<open>
  \<^verbatim>\<open>
  def _fetch_json_payload(url: str, token: str) -> dict[str, str | int] | None:
      pass
  \<close>
  The body is \<^verbatim>\<open>pass\<close>: the call returns \<^verbatim>\<open>None\<close> and touches nothing.
\<close>

definition fetch_json_payload :: "world \<Rightarrow> string \<Rightarrow> string \<Rightarrow> (exn + json) \<times> world" where
  "fetch_json_payload w u token = (Inr JNull, w)"

section \<open>Notions used to state the properties\<close>

text \<open>The ISO string of a calendar date, and the dates the docstring asks for: \<^verbatim>\<open>YYYY-MM-DD\<close>.\<close>

definition iso_date :: "nat \<Rightarrow> nat \<Rightarrow> nat \<Rightarrow> string" where
  "iso_date y m d = pad4 y @ ''-'' @ pad2 m @ ''-'' @ pad2 d"

definition is_calendar_date :: "string \<Rightarrow> bool" where
  "is_calendar_date s =
     (case parse_isoformat_date s of None \<Rightarrow> False | Some (y, m, d) \<Rightarrow> valid_date y m d)"

definition same_time :: "datetime \<Rightarrow> datetime \<Rightarrow> bool" where
  "same_time a b = (hour a = hour b \<and> minute a = minute b \<and> second a = second b)"

definition is_max_date :: "datetime \<Rightarrow> bool" where
  "is_max_date dt = (year dt = 9999 \<and> month dt = 12 \<and> day dt = 31)"


definition cut_put_then_get :: "nat \<Rightarrow> filesystem \<Rightarrow> string \<Rightarrow> json \<Rightarrow> exn + json" where
  "cut_put_then_get n fs body data =
     (case save_to_cache_upto n fs body data of
        Inl e \<Rightarrow> Inl e
      | Inr fs' \<Rightarrow> load_file_from_cache fs' body)"

text \<open>What can follow a value in a JSON text: the end, a comma, or a closing bracket.\<close>

definition value_end :: "string \<Rightarrow> bool" where
  "value_end rest =
     (rest = [] \<or> hd rest = CHR '','' \<or> hd rest = CHR '']'' \<or> hd rest = CHR ''}'')"

text \<open>Concrete states used in the examples below.\<close>

definition cache_with :: "string \<Rightarrow> string \<Rightarrow> filesystem" where
  "cache_with body text = fresh_fs\<lparr>files := (files fresh_fs)(cached_file body \<mapsto> text)\<rparr>"

definition world_401 :: world where
  "world_401 = \<lparr>disk = fresh_fs, transport = (\<lambda>_. (401, [])), sent = []\<rparr>"

definition world_cached :: world where
  "world_cached =
     \<lparr>disk = cache_with ''fixtures'' (json_dumps (JDict [(''page'', JInt 1)])),
      transport = (\<lambda>_. (200, ''{}'')), sent = []\<rparr>"

definition bearer_request :: request where
  "bearer_request =
     \<lparr>req_url = Some ''https://api09.horseracing.software/bha/v1/racecourses/'',
      req_headers = [(''authorization'', ''Bearer abc'')]\<rparr>"

definition plain_request :: request where
  "plain_request =
     \<lparr>req_url = Some ''https://www.britishhorseracing.com/racing/results/'', req_headers = []\<rparr>"

section \<open>Properties of the date-range generator\<close>

subsection \<open>The calendar\<close>

lemma days_before_year_Suc:
  assumes "1 \<le> y"
  shows "days_before_year (Suc y) = days_before_year y + (if is_leap y then 366 else 365)"
proof -
  obtain p where y: "y = Suc p" using assms by (cases y) auto
  have d4: "Suc p div 4 = p div 4 + (if Suc p mod 4 = 0 then 1 else 0)"
    and d100: "Suc p div 100 = p div 100 + (if Suc p mod 100 = 0 then 1 else 0)"
    and d400: "Suc p div 400 = p div 400 + (if Suc p mod 400 = 0 then 1 else 0)"
    by (simp_all add: div_Suc)
  have le: "p div 100 \<le> p div 4"
    by (rule div_le_mono2) simp_all
  have m1: "Suc p mod 400 = 0 \<Longrightarrow> Suc p mod 100 = 0"
    by (metis dvd_trans mod_eq_0_iff_dvd dvd_def mult.commute numeral_times_numeral semiring_norm(12,13) mult_numeral_left_semiring_numeral dvd_triv_left)
  have m2: "Suc p mod 100 = 0 \<Longrightarrow> Suc p mod 4 = 0"
    by presburger
  define a b c where "a = p div 4" and "b = p div 100" and "c = p div 400"
  have "days_before_year (Suc y) =
      y * 365 + (a + (if y mod 4 = 0 then 1 else 0)) + (c + (if y mod 400 = 0 then 1 else 0))
        - (b + (if y mod 100 = 0 then 1 else 0))"
    by (simp add: days_before_year_def y d4 d100 d400 a_def b_def c_def)
  moreover have "days_before_year y = p * 365 + a + c - b"
    by (simp add: days_before_year_def y a_def b_def c_def)
  moreover have "b \<le> a" using le by (simp add: a_def b_def)
  ultimately show ?thesis
    using m1 m2 unfolding is_leap_def y by (simp split: if_splits)
qed

lemma days_before_month_Suc:
  "1 \<le> m \<Longrightarrow> days_before_month y (Suc m) = days_before_month y m + days_in_month y m"
  by (simp add: days_before_month_def)

lemma upt_1_13: "[Suc 0..<13] = [1,2,3,4,5,6,7,8,9,10,11,12::nat]"
  by (simp add: upt_rec)

lemma days_before_month_13:
  "days_before_month y 13 = (if is_leap y then 366 else 365)"
  by (simp add: days_before_month_def upt_1_13 days_in_month_def)

lemma days_in_month_pos: "0 < days_in_month y m"
  by (simp add: days_in_month_def)

lemma days_in_month_le: "days_in_month y m \<le> 31"
  by (simp add: days_in_month_def)

subsection \<open>Adding a day\<close>

lemma plus_one_day_valid:
  assumes "valid_datetime dt" "plus_one_day dt = Inr dt'"
  shows "valid_datetime dt' \<and> toordinal dt' = toordinal dt + 1
       \<and> hour dt' = hour dt \<and> minute dt' = minute dt \<and> second dt' = second dt"
proof -
  consider (d) "day dt < days_in_month (year dt) (month dt)"
    | (m) "\<not> day dt < days_in_month (year dt) (month dt)" "month dt < 12"
    | (y) "\<not> day dt < days_in_month (year dt) (month dt)" "\<not> month dt < 12" "year dt < MAXYEAR"
    using assms(2) by (auto simp: plus_one_day_def split: if_splits)
  then show ?thesis
  proof cases
    case d
    with assms show ?thesis
      by (auto simp: plus_one_day_def valid_datetime_def valid_date_def toordinal_def)
  next
    case m
    with assms have dt': "dt' = dt\<lparr>month := month dt + 1, day := 1\<rparr>"
      and dd: "day dt = days_in_month (year dt) (month dt)" and m1: "1 \<le> month dt"
      by (auto simp: plus_one_day_def valid_datetime_def valid_date_def)
    show ?thesis
      using assms(1) m dd m1 days_before_month_Suc[of "month dt" "year dt"]
        days_in_month_pos[of "year dt" "Suc (month dt)"]
      by (simp add: dt' valid_datetime_def valid_date_def toordinal_def)
  next
    case y
    with assms have dt': "dt' = dt\<lparr>year := year dt + 1, month := 1, day := 1\<rparr>"
      and dd: "day dt = days_in_month (year dt) (month dt)" and m12: "month dt = 12"
      and y1: "1 \<le> year dt"
      by (auto simp: plus_one_day_def valid_datetime_def valid_date_def MINYEAR_def)
    have "days_before_month (year dt) 13 = days_before_month (year dt) 12 + days_in_month (year dt) 12"
      using days_before_month_Suc[of 12 "year dt"] by simp
    then show ?thesis
      using assms(1) y dd m12 y1 days_before_year_Suc[of "year dt"] days_before_month_13[of "year dt"]
      by (simp add: dt' valid_datetime_def valid_date_def toordinal_def MINYEAR_def MAXYEAR_def
          days_before_month_def days_in_month_def split: if_splits)
  qed
qed

lemma plus_one_day_overflow:
  assumes "valid_datetime dt"
  shows "(\<exists>e. plus_one_day dt = Inl e) \<longleftrightarrow> (year dt = 9999 \<and> month dt = 12 \<and> day dt = 31)"
  using assms
  by (auto simp: plus_one_day_def valid_datetime_def valid_date_def MAXYEAR_def days_in_month_def)


lemma days_before_year_mono: "y \<le> y' \<Longrightarrow> days_before_year y \<le> days_before_year y'"
proof (rule lift_Suc_mono_le[of days_before_year])
  fix n show "days_before_year n \<le> days_before_year (Suc n)"
  proof (cases "1 \<le> n")
    case True then show ?thesis using days_before_year_Suc[of n] by simp
  next
    case False then show ?thesis by (simp add: days_before_year_def)
  qed
qed simp

lemma days_before_month_mono: "m \<le> m' \<Longrightarrow> days_before_month y m \<le> days_before_month y m'"
proof (rule lift_Suc_mono_le[of "days_before_month y"])
  fix n show "days_before_month y n \<le> days_before_month y (Suc n)"
    by (cases "1 \<le> n") (simp_all add: days_before_month_Suc, simp add: days_before_month_def)
qed simp

lemma toordinal_year_less:
  assumes "valid_datetime a" "valid_datetime b" "year a < year b"
  shows "toordinal a < toordinal b"
proof -
  have m: "1 \<le> month a" "month a \<le> 12" and d: "day a \<le> days_in_month (year a) (month a)"
    and y: "1 \<le> year a" and db: "1 \<le> day b"
    using assms by (auto simp: valid_datetime_def valid_date_def MINYEAR_def)
  have "days_before_month (year a) (month a) + day a \<le> days_before_month (year a) (Suc (month a))"
    using m d by (simp add: days_before_month_Suc)
  also have "\<dots> \<le> days_before_month (year a) 13"
    using m by (intro days_before_month_mono) simp
  finally have "toordinal a \<le> days_before_year (Suc (year a))"
    using y by (simp add: toordinal_def days_before_year_Suc days_before_month_13)
  also have "\<dots> \<le> days_before_year (year b)"
    using assms(3) by (intro days_before_year_mono) simp
  also have "\<dots> < toordinal b"
    using db by (simp add: toordinal_def)
  finally show ?thesis .
qed

lemma toordinal_month_less:
  assumes "valid_datetime a" "valid_datetime b" "year a = year b" "month a < month b"
  shows "toordinal a < toordinal b"
proof -
  have m: "1 \<le> month a" and d: "day a \<le> days_in_month (year a) (month a)" and db: "1 \<le> day b"
    using assms by (auto simp: valid_datetime_def valid_date_def)
  have "days_before_month (year a) (month a) + day a \<le> days_before_month (year a) (Suc (month a))"
    using m d by (simp add: days_before_month_Suc)
  also have "\<dots> \<le> days_before_month (year a) (month b)"
    using assms(4) by (intro days_before_month_mono) simp
  finally show ?thesis
    using db assms(3) by (simp add: toordinal_def)
qed


lemma dt_less_iff_toordinal:
  assumes "valid_datetime a" "valid_datetime b" "same_time a b"
  shows "dt_less a b \<longleftrightarrow> toordinal a < toordinal b"
proof -
  consider "year a < year b" | "year b < year a"
    | "year a = year b" "month a < month b" | "year a = year b" "month b < month a"
    | "year a = year b" "month a = month b"
    by linarith
  then show ?thesis
  proof cases
    case 1
    then show ?thesis using toordinal_year_less[OF assms(1,2)]
      by (simp add: dt_less_def dt_key_def)
  next
    case 2
    then show ?thesis using toordinal_year_less[OF assms(2,1)]
      by (auto simp add: dt_less_def dt_key_def)
  next
    case 3
    then show ?thesis using toordinal_month_less[OF assms(1,2)]
      by (simp add: dt_less_def dt_key_def)
  next
    case 4
    then show ?thesis using toordinal_month_less[OF assms(2,1)]
      by (auto simp add: dt_less_def dt_key_def)
  next
    case 5
    then show ?thesis using assms(3)
      by (auto simp add: dt_less_def dt_key_def toordinal_def same_time_def)
  qed
qed

lemma toordinal_inj:
  assumes "valid_datetime a" "valid_datetime b" "same_time a b" "toordinal a = toordinal b"
  shows "a = b"
proof -
  have "\<not> dt_less a b" "\<not> dt_less b a"
    using dt_less_iff_toordinal[OF assms(1,2,3)] dt_less_iff_toordinal[OF assms(2,1)] assms(3,4)
    by (auto simp: same_time_def)
  then have "year a = year b \<and> month a = month b \<and> day a = day b"
    by (auto simp: dt_less_def dt_key_def)
  then show ?thesis using assms(3) by (simp add: same_time_def)
qed


lemma of_char_digit_char: "n < 10 \<Longrightarrow> (of_char (digit_char n) :: nat) = 48 + n"
  by (simp add: digit_char_def)

lemma is_digit_digit_char: "n < 10 \<Longrightarrow> is_digit (digit_char n)"
  by (simp add: is_digit_def of_char_digit_char)

lemma digit_val_digit_char: "n < 10 \<Longrightarrow> digit_val (digit_char n) = n"
  by (simp add: digit_val_def of_char_digit_char)

lemma decimal4:
  assumes "n < 10000"
  shows "((n div 1000 mod 10 * 10 + n div 100 mod 10) * 10 + n div 10 mod 10) * 10 + n mod 10 = (n::nat)"
proof -
  have a: "n div 1000 mod 10 = n div 1000" using assms by simp
  have b: "n div 1000 * 10 + n div 100 mod 10 = n div 100"
    using div_mult_mod_eq[of "n div 100" 10] by (simp add: div_mult2_eq[symmetric])
  have c: "n div 100 * 10 + n div 10 mod 10 = n div 10"
    using div_mult_mod_eq[of "n div 10" 10] by (simp add: div_mult2_eq[symmetric])
  have d: "n div 10 * 10 + n mod 10 = n"
    using div_mult_mod_eq[of n 10] by simp
  show ?thesis by (simp only: a b c d)
qed

lemma parse_digits_pad4: "n < 10000 \<Longrightarrow> parse_digits (pad4 n) = Some n"
  using decimal4[of n]
  by (simp add: parse_digits_def pad4_def is_digit_digit_char digit_val_digit_char)

lemma parse_digits_pad2: "n < 100 \<Longrightarrow> parse_digits (pad2 n) = Some n"
  by (simp add: parse_digits_def pad2_def is_digit_digit_char digit_val_digit_char)

lemma length_pad [simp]: "length (pad4 n) = 4" "length (pad2 n) = 2"
  by (simp_all add: pad4_def pad2_def)

lemma parse_isoformat_date_strftime:
  assumes "year dt < 10000" "month dt < 100" "day dt < 100"
  shows "parse_isoformat_date (strftime_Ymd dt) = Some (year dt, month dt, day dt)"
proof -
  have "strftime_Ymd dt ! 4 = CHR ''-''" "strftime_Ymd dt ! 7 = CHR ''-''"
    by (simp_all add: strftime_Ymd_def nth_append pad2_def)
  moreover have "take 4 (strftime_Ymd dt) = pad4 (year dt)"
    "take 2 (drop 5 (strftime_Ymd dt)) = pad2 (month dt)"
    "drop 8 (strftime_Ymd dt) = pad2 (day dt)"
    by (simp_all add: strftime_Ymd_def)
  ultimately show ?thesis
    using assms
    by (simp add: parse_isoformat_date_def parse_digits_pad4 parse_digits_pad2)
      (simp add: strftime_Ymd_def)
qed

lemma fromisoformat_strftime:
  assumes "valid_date y m d"
  shows "fromisoformat (strftime_Ymd (midnight y m d)) = Some (midnight y m d)"
proof -
  have b: "y < 10000" "m < 100" "d < 100"
    using assms days_in_month_le[of y m] by (auto simp: valid_date_def MAXYEAR_def)
  have len: "length (strftime_Ymd (midnight y m d)) = 10"
    by (simp add: strftime_Ymd_def)
  have "parse_isoformat_date (strftime_Ymd (midnight y m d)) = Some (y, m, d)"
    using parse_isoformat_date_strftime[of "midnight y m d"] b by (simp add: midnight_def)
  then show ?thesis
    using assms len by (simp add: fromisoformat_def valid_datetime_def midnight_def)
qed



lemma max_date_greatest:
  assumes "valid_datetime a" "valid_datetime b" "same_time a b" "is_max_date a"
  shows "toordinal b \<le> toordinal a"
proof -
  have "\<not> dt_less a b"
    using assms days_in_month_le[of "year b" "month b"]
    by (auto simp: dt_less_def dt_key_def is_max_date_def valid_datetime_def valid_date_def
        MAXYEAR_def same_time_def)
  then show ?thesis using dt_less_iff_toordinal[OF assms(1,2,3)] by simp
qed

lemma daily_loop_correct:
  assumes "valid_datetime c" "valid_datetime e" "same_time c e"
  shows "length (fst (daily_loop c e)) = toordinal e + 1 - toordinal c
       \<and> (\<forall>i < length (fst (daily_loop c e)). \<exists>dt. valid_datetime dt \<and> same_time dt e
              \<and> toordinal dt = toordinal c + i \<and> fst (daily_loop c e) ! i = strftime_Ymd dt)
       \<and> snd (daily_loop c e) =
           (if toordinal c \<le> toordinal e \<and> is_max_date e
            then Raised (OverflowError ''date value out of range'') else StopIteration)"
  using assms
proof (induction c e rule: daily_loop.induct)
  case (1 c e)
  have le_iff: "dt_le c e \<longleftrightarrow> toordinal c \<le> toordinal e"
    using dt_less_iff_toordinal[of e c] "1.prems" by (auto simp: dt_le_def same_time_def)
  show ?case
  proof (cases "dt_le c e")
    case False
    then show ?thesis using le_iff by (subst (1 2 3 4) daily_loop.simps) simp
  next
    case le: True
    show ?thesis
    proof (cases "plus_one_day c")
      case (Inl x)
      then have mx: "is_max_date c" and x: "x = OverflowError ''date value out of range''"
        using plus_one_day_overflow[OF "1.prems"(1)]
        by (auto simp: is_max_date_def plus_one_day_def split: if_splits)
      have "toordinal e \<le> toordinal c"
        using max_date_greatest[OF "1.prems"(1,2,3) mx] .
      with le le_iff have eq: "toordinal e = toordinal c" by simp
      then have "e = c" using toordinal_inj[of e c] "1.prems" by (simp add: same_time_def)
      have loop: "daily_loop c e = ([strftime_Ymd c], Raised x)"
        using le Inl by (subst daily_loop.simps) simp
      show ?thesis
        unfolding loop using eq mx x "1.prems" \<open>e = c\<close> by auto
    next
      case (Inr n)
      have nv: "valid_datetime n" and no: "toordinal n = toordinal c + 1" and nt: "same_time n e"
        using plus_one_day_valid[OF "1.prems"(1) Inr] "1.prems"(3) by (auto simp: same_time_def)
      note IH = "1.IH"[OF le Inr nv "1.prems"(2) nt]
      obtain ys r where yr: "daily_loop n e = (ys, r)" by (cases "daily_loop n e")
      have loop: "daily_loop c e = (strftime_Ymd c # ys, r)"
        using le Inr yr by (subst daily_loop.simps) simp
      have len: "length ys = toordinal e - toordinal c"
        using IH yr no by simp
      have elems: "\<exists>dt. valid_datetime dt \<and> same_time dt e \<and> toordinal dt = toordinal c + i
                    \<and> (strftime_Ymd c # ys) ! i = strftime_Ymd dt" if "i < Suc (length ys)" for i
      proof (cases i)
        case 0
        then show ?thesis using "1.prems" by (intro exI[of _ c]) simp
      next
        case (Suc j)
        then have "j < length ys" using that by simp
        then obtain dt where "valid_datetime dt" "same_time dt e" "toordinal dt = toordinal n + j"
          "ys ! j = strftime_Ymd dt"
          using IH yr by auto
        then show ?thesis using Suc no by (intro exI[of _ dt]) simp
      qed
      have out: "r = (if toordinal c \<le> toordinal e \<and> is_max_date e
            then Raised (OverflowError ''date value out of range'') else StopIteration)"
      proof (cases "toordinal n \<le> toordinal e")
        case True
        then show ?thesis using IH yr le le_iff by simp
      next
        case False
        then have "\<not> is_max_date e"
          using max_date_greatest[OF "1.prems"(2) nv] nt by (auto simp: same_time_def)
        then show ?thesis using IH yr False by simp
      qed
      show ?thesis
        unfolding loop using len elems out le le_iff by simp
    qed
  qed
qed


lemma strftime_midnight: "strftime_Ymd (midnight y m d) = iso_date y m d"
  by (simp add: strftime_Ymd_def midnight_def iso_date_def)

lemma fromisoformat_iso_date:
  "valid_date y m d \<Longrightarrow> fromisoformat (iso_date y m d) = Some (midnight y m d)"
  using fromisoformat_strftime[of y m d] by (simp add: strftime_midnight)

lemma valid_midnight: "valid_date y m d \<Longrightarrow> valid_datetime (midnight y m d)"
  by (simp add: valid_datetime_def midnight_def)

lemma same_time_midnight: "same_time (midnight y m d) (midnight y' m' d')"
  by (simp add: same_time_def midnight_def)


lemma generate_on_dates:
  assumes "valid_date y1 m1 d1" "valid_date y2 m2 d2"
    and "toordinal (midnight y1 m1 d1) \<le> toordinal (midnight y2 m2 d2)"
  shows "generate_daily_date_strings (iso_date y1 m1 d1) (iso_date y2 m2 d2)
       = daily_loop (midnight y1 m1 d1) (midnight y2 m2 d2)"
proof -
  have "\<not> dt_less (midnight y2 m2 d2) (midnight y1 m1 d1)"
    using dt_less_iff_toordinal[OF valid_midnight[OF assms(2)] valid_midnight[OF assms(1)]
        same_time_midnight] assms(3) by simp
  then show ?thesis
    using assms(1,2)
    by (simp add: generate_daily_date_strings_def fromisoformat_iso_date)
qed




subsection \<open>Refused ranges\<close>

text \<open>
  Claim C7. For two valid calendar dates with the start strictly after the end, the
  generator yields nothing and ends with the \<^verbatim>\<open>ValueError\<close> that says the start date is
  after the end date: the check stands before the loop, so the failure comes before any
  iteration.
\<close>

theorem inverted_range_fails:
  assumes "valid_date y1 m1 d1" and "valid_date y2 m2 d2"
    and "toordinal (midnight y2 m2 d2) < toordinal (midnight y1 m1 d1)"
  shows "generate_daily_date_strings (iso_date y1 m1 d1) (iso_date y2 m2 d2)
       = ([], Raised (ValueError
            (start_after_end_message (iso_date y1 m1 d1) (iso_date y2 m2 d2))))"
proof -
  have "dt_less (midnight y2 m2 d2) (midnight y1 m1 d1)"
    using dt_less_iff_toordinal[OF valid_midnight[OF assms(2)] valid_midnight[OF assms(1)]
        same_time_midnight] assms(3) by simp
  then show ?thesis
    using assms(1,2) by (simp add: generate_daily_date_strings_def fromisoformat_iso_date)
qed

theorem inverted_range_fails_witness:
  "valid_date 2024 3 2 \<and> valid_date 2024 3 1
   \<and> toordinal (midnight 2024 3 1) < toordinal (midnight 2024 3 2)
   \<and> generate_daily_date_strings (iso_date 2024 3 2) (iso_date 2024 3 1)
       = ([], Raised (ValueError
            (start_after_end_message (iso_date 2024 3 2) (iso_date 2024 3 1))))"
proof -
  have h1: "valid_date 2024 3 2" and h2: "valid_date 2024 3 1"
    by (simp_all add: valid_date_def MINYEAR_def MAXYEAR_def days_in_month_def is_leap_def)
  have h3: "toordinal (midnight 2024 3 1) < toordinal (midnight 2024 3 2)"
    by (simp add: toordinal_def midnight_def)
  from inverted_range_fails[OF h1 h2 h3] h1 h2 h3 show ?thesis by blast
qed


text \<open>In this model of the parser, a string that does not begin with a calendar date is refused.\<close>

lemma no_date_prefix_refused:
  "\<not> is_calendar_date (take 10 s) \<Longrightarrow> fromisoformat s = None"
  by (auto simp: fromisoformat_def is_calendar_date_def valid_datetime_def Let_def
      split: option.splits if_splits)



section \<open>Properties of the token capture\<close>

lemma handle_request_keeps_none:
  "captured_token self = None \<Longrightarrow> captured_token (handle_request self r) = None"
  by (simp add: handle_request_def get_auth_header_def truthy_def split: option.splits)

lemma observe_keeps_none:
  "captured_token self = None \<Longrightarrow> captured_token (observe self rs) = None"
  unfolding observe_def
  by (induction rs arbitrary: self) (simp_all add: handle_request_keeps_none)

lemma never_captured: "get_token (observe (TokenCapture_init domain) rs) = None"
  by (simp add: get_token_def observe_keeps_none TokenCapture_init_def)

text \<open>
  Claim C5 asks that the capturer end holding the token of the first request to the API
  domain that carries a bearer token. Here the third request is such a request; the
  handler holds no token after it, and the acquisition raises.
\<close>

theorem token_capture_failing_input:
  "contains ''api09.horseracing.software'' (the (req_url bearer_request))
   \<and> get_token (observe (TokenCapture_init ''api09.horseracing.software'')
         [plain_request, plain_request, bearer_request]) = None
   \<and> fetch_token_via_playwright ''api09.horseracing.software''
         [plain_request, plain_request, bearer_request]
       = Inl (Exception ''Failed to capture token'')"
  by (simp add: never_captured fetch_token_via_playwright_def bearer_request_def)

section \<open>Properties of the fetch layer\<close>

text \<open>
  Claim C3 says that a 401 answer makes the fetch fail after exactly one transport call.
  With a transport that answers 401 the call does not fail and sends nothing.
\<close>

theorem fetch_401_counterexample:
  "fst (transport world_401 (''https://api09.horseracing.software/bha/v1/racecourses/'', ''Bearer abc'')) = 401
   \<and> fst (fetch_json_payload world_401
         ''https://api09.horseracing.software/bha/v1/racecourses/'' ''Bearer abc'') = Inr JNull
   \<and> sent (snd (fetch_json_payload world_401
         ''https://api09.horseracing.software/bha/v1/racecourses/'' ''Bearer abc'')) = []"
  by (simp add: fetch_json_payload_def world_401_def)

text \<open>
  Claim C3, amended. Whatever the transport would answer, the fetch makes no transport
  call, hence no retry, and returns \<^verbatim>\<open>None\<close> instead of raising.
\<close>

theorem fetch_sends_nothing:
  "sent (snd (fetch_json_payload w u token)) = sent w
   \<and> fst (fetch_json_payload w u token) = Inr JNull"
  by (simp add: fetch_json_payload_def)

text \<open>
  Claim C4 says that a fetch whose key has a cache entry returns the cached document.
  Here the cache holds a document under the key, and the fetch returns \<^verbatim>\<open>None\<close>.
\<close>

theorem fetch_cached_counterexample:
  "load_file_from_cache (disk world_cached) ''fixtures'' = Inr (JDict [(''page'', JInt 1)])
   \<and> fst (fetch_json_payload world_cached ''fixtures'' ''Bearer abc'') = Inr JNull"
  by code_simp

text \<open>
  Claim C4, amended. When the cache holds a document under the key, the fetch makes no
  network call and leaves the cache as it is, but it returns \<^verbatim>\<open>None\<close>, not the document.
\<close>

theorem fetch_ignores_cache:
  assumes "load_file_from_cache (disk w) u = Inr doc"
  shows "fetch_json_payload w u token = (Inr JNull, w)"
  by (simp add: fetch_json_payload_def)

theorem fetch_ignores_cache_witness:
  "load_file_from_cache (disk world_cached) ''fixtures'' = Inr (JDict [(''page'', JInt 1)])
   \<and> fetch_json_payload world_cached ''fixtures'' ''Bearer abc'' = (Inr JNull, world_cached)"
proof -
  have h: "load_file_from_cache (disk world_cached) ''fixtures'' = Inr (JDict [(''page'', JInt 1)])"
    by code_simp
  from fetch_ignores_cache[OF h] h show ?thesis by blast
qed

section \<open>Properties of the response cache\<close>

subsection \<open>What a write changes\<close>

lemma open_w_result:
  assumes "open_w fs p = Inr fs'"
  shows "fs' = fs\<lparr>files := (files fs)(p \<mapsto> [])\<rparr>" and "\<not> is_dir fs p"
  using assms by (auto simp: open_w_def split: if_splits)

lemma save_to_cache_upto_result:
  assumes "save_to_cache_upto n fs body data = Inr fs'"
  shows "fs' = fs\<lparr>files := (files fs)(cached_file body \<mapsto> take n (json_dumps data))\<rparr>"
    and "\<not> is_dir fs (cached_file body)"
proof -
  obtain fs1 where o: "open_w fs (cached_file body) = Inr fs1"
    and w: "fs' = write_text fs1 (cached_file body) (take n (json_dumps data))"
    using assms by (auto simp: save_to_cache_upto_def split: sum.splits)
  show "fs' = fs\<lparr>files := (files fs)(cached_file body \<mapsto> take n (json_dumps data))\<rparr>"
    unfolding w open_w_result(1)[OF o] by (simp add: write_text_def)
  show "\<not> is_dir fs (cached_file body)"
    using open_w_result(2)[OF o] .
qed





subsection \<open>Reading\<close>





subsection \<open>A write that is cut short\<close>

text \<open>
  Claim C6 says that a write cut short leaves either the old or the new document to be
  read. Here the cache holds a document under the key; a write of another document is
  stopped after five characters, and the load then raises the decoding error.
\<close>

theorem cut_write_counterexample:
  "load_file_from_cache (cache_with ''a'' (json_dumps (JDict [(''page'', JInt 1)]))) ''a''
     = Inr (JDict [(''page'', JInt 1)])
   \<and> cut_put_then_get 5 (cache_with ''a'' (json_dumps (JDict [(''page'', JInt 1)]))) ''a''
       (JDict [(''page'', JInt 2)])
     = Inl JSONDecodeError"
  by code_simp

text \<open>
  Claim C6, amended. There is no temporary file and no rename: opening the file empties
  it, so a write that is stopped after \<open>n\<close> characters leaves exactly the first \<open>n\<close>
  characters of the new text in the file, and nothing of the old content; the load then
  gives what that prefix decodes to, and raises the decoding error when it does not
  decode.
\<close>

theorem cut_write_leaves_prefix:
  assumes "save_to_cache_upto n fs key doc = Inr fs'"
  shows "files fs' (cached_file key) = Some (take n (json_dumps doc))
       \<and> load_file_from_cache fs' key =
           (case json_loads (take n (json_dumps doc)) of
              None \<Rightarrow> Inl JSONDecodeError
            | Some v \<Rightarrow> Inr v)"
  using save_to_cache_upto_result(1)[OF assms]
  by (simp add: load_file_from_cache_def path_exists_def open_r_def)

theorem cut_write_leaves_prefix_witness:
  "save_to_cache_upto 5 fresh_fs ''a'' (JDict [(''page'', JInt 2)])
     = Inr (cache_with ''a'' (take 5 (json_dumps (JDict [(''page'', JInt 2)]))))
   \<and> files (cache_with ''a'' (take 5 (json_dumps (JDict [(''page'', JInt 2)])))) (cached_file ''a'')
     = Some (take 5 (json_dumps (JDict [(''page'', JInt 2)])))
   \<and> load_file_from_cache (cache_with ''a'' (take 5 (json_dumps (JDict [(''page'', JInt 2)])))) ''a''
     = (case json_loads (take 5 (json_dumps (JDict [(''page'', JInt 2)]))) of
          None \<Rightarrow> Inl JSONDecodeError
        | Some v \<Rightarrow> Inr v)"
proof -
  have h: "save_to_cache_upto 5 fresh_fs ''a'' (JDict [(''page'', JInt 2)])
     = Inr (cache_with ''a'' (take 5 (json_dumps (JDict [(''page'', JInt 2)]))))"
    by (simp add: save_to_cache_upto_def open_w_def write_text_def cache_with_def fresh_fs_def
        import_module_def is_dir_def cached_file_def joinpath_def path_parts_def is_absolute_def
        CACHE_DIR_def parent_def)
  from cut_write_leaves_prefix[OF h] h show ?thesis by blast
qed

section \<open>Reading back what was written\<close>

subsection \<open>Strings\<close>

lemma hex_val_hex_digit: "k < 16 \<Longrightarrow> hex_val (hex_digit k) = Some k"
  by (auto simp: hex_val_def hex_digit_def Let_def)

lemma hex_val_zero: "hex_val (CHR ''0'') = Some 0"
  by (simp add: hex_val_def)

lemma parse_hex4_byte:
  "n < 256 \<Longrightarrow> parse_hex4 (CHR ''0'') (CHR ''0'') (hex_digit (n div 16)) (hex_digit (n mod 16)) = Some n"
  by (simp add: parse_hex4_def hex_val_zero hex_val_hex_digit less_mult_imp_div_less)

lemma of_char_less_256: "(of_char (c::char) :: nat) < 256"
  by (rule order_less_le_trans[of _ "2 ^ 8"]) (simp_all add: of_char_def)

lemma scanstring_escape_char:
  "scanstring (escape_char c @ t) = cons_result c (scanstring t)"
proof -
  consider (q) "c = dquote" | (b) "c = backslash" | (n) "c = CHR 0x0A" | (r) "c = CHR 0x0D"
    | (t) "c = CHR 0x09" | (bs) "c = CHR 0x08" | (f) "c = CHR 0x0C"
    | (u) "c \<noteq> dquote" "c \<noteq> backslash" "c \<noteq> CHR 0x0A" "c \<noteq> CHR 0x0D" "c \<noteq> CHR 0x09"
          "c \<noteq> CHR 0x08" "c \<noteq> CHR 0x0C" "(of_char c :: nat) < 32 \<or> (of_char c :: nat) > 126"
    | (p) "c \<noteq> dquote" "c \<noteq> backslash" "\<not> ((of_char c :: nat) < 32 \<or> (of_char c :: nat) > 126)"
    by blast
  then show ?thesis
  proof cases
    case u
    have "parse_hex4 (CHR ''0'') (CHR ''0'') (hex_digit (of_char c div 16)) (hex_digit (of_char c mod 16))
        = Some (of_char c)"
      by (rule parse_hex4_byte) (rule of_char_less_256)
    then show ?thesis
      using u of_char_less_256[of c] by (simp add: escape_char_def)
  next
    case p
    then show ?thesis by (auto simp add: escape_char_def)
  qed (simp_all add: escape_char_def unescape_def)
qed

lemma scanstring_escaped:
  "scanstring (concat (map escape_char s) @ dquote # rest) = Some (s, rest)"
  by (induction s) (simp_all add: scanstring_escape_char cons_result_def)

subsection \<open>Numbers\<close>

lemma show_nat_digits: "list_all is_digit (show_nat n)"
proof (induction n rule: show_nat.induct)
  case (1 n)
  show ?case
  proof (cases "n < 10")
    case True
    then show ?thesis by (subst show_nat.simps) (simp add: is_digit_digit_char)
  next
    case False
    then show ?thesis using 1 by (subst show_nat.simps) (simp add: is_digit_digit_char)
  qed
qed

lemma show_nat_nonempty: "show_nat n \<noteq> []"
  by (subst show_nat.simps) simp

lemma digits_value_snoc: "digits_value (ds @ [c]) = digits_value ds * 10 + digit_val c"
  by (simp add: digits_value_def)

lemma digits_value_show_nat: "digits_value (show_nat n) = n"
proof (induction n rule: show_nat.induct)
  case (1 n)
  show ?case
  proof (cases "n < 10")
    case True
    then show ?thesis
      by (subst show_nat.simps) (simp add: digits_value_def digit_val_digit_char)
  next
    case False
    then show ?thesis
      using 1 by (subst show_nat.simps) (simp add: digits_value_snoc digit_val_digit_char)
  qed
qed

lemma digit_char_0: "digit_char 0 = CHR ''0''"
  by code_simp

lemma digit_char_zero: "n < 10 \<Longrightarrow> digit_char n = CHR ''0'' \<longleftrightarrow> n = 0"
proof
  assume n: "n < 10" and "digit_char n = CHR ''0''"
  then have "digit_val (digit_char n) = digit_val (CHR ''0'')" by simp
  then show "n = 0" using n by (simp add: digit_val_digit_char) (simp add: digit_val_def)
next
  assume "n = 0" then show "digit_char n = CHR ''0''" by (simp add: digit_char_0)
qed

lemma hd_show_nat: "0 < n \<Longrightarrow> hd (show_nat n) \<noteq> CHR ''0''"
proof (induction n rule: show_nat.induct)
  case (1 n)
  show ?case
  proof (cases "n < 10")
    case True
    then show ?thesis using "1.prems" by (subst show_nat.simps) (simp add: digit_char_zero)
  next
    case False
    then have "0 < n div 10" by simp
    then show ?thesis
      using 1 False by (subst show_nat.simps) (simp add: show_nat_nonempty)
  qed
qed

lemma show_nat_zero: "show_nat 0 = ''0''"
  by (subst show_nat.simps) (simp add: digit_char_0)

lemma hd_show_nat_not_minus: "hd (show_nat n) \<noteq> CHR ''-''"
proof -
  have "is_digit (hd (show_nat n))"
    using show_nat_digits[of n] show_nat_nonempty[of n]
    by (cases "show_nat n") simp_all
  then show ?thesis by (auto simp: is_digit_def)
qed

lemma takeWhile_stop:
  assumes "rest = [] \<or> \<not> P (hd rest)"
  shows "takeWhile P rest = []" and "dropWhile P rest = rest"
  using assms by (cases rest; simp)+

lemma takeWhile_run:
  assumes "list_all P xs" and "rest = [] \<or> \<not> P (hd rest)"
  shows "takeWhile P (xs @ rest) = xs" and "dropWhile P (xs @ rest) = rest"
  using assms(1) takeWhile_stop[of rest P] assms(2) by (induction xs) simp_all

lemma value_end_no_digit:
  assumes "value_end rest"
  shows "rest = [] \<or> \<not> is_digit (hd rest)"
    and "\<not> (rest \<noteq> [] \<and> (hd rest = CHR ''.'' \<or> hd rest = CHR ''e'' \<or> hd rest = CHR ''E''))"
  using assms by (auto simp: value_end_def is_digit_def)

lemma scan_number_show_nat:
  assumes "value_end rest"
  shows "scan_number (show_nat n @ rest) = Some (JInt (int n), rest)"
proof -
  have neg: "\<not> ((show_nat n @ rest) \<noteq> [] \<and> hd (show_nat n @ rest) = CHR ''-'')"
    using hd_show_nat_not_minus[of n] show_nat_nonempty[of n] by simp
  have tw: "takeWhile is_digit (show_nat n @ rest) = show_nat n"
    and dw: "dropWhile is_digit (show_nat n @ rest) = rest"
    using takeWhile_run[OF show_nat_digits value_end_no_digit(1)[OF assms]] by simp_all
  show ?thesis
  proof (cases "n = 0")
    case True
    then show ?thesis
      using value_end_no_digit(2)[OF assms] tw dw neg
      by (simp add: scan_number_def Let_def show_nat_zero digits_value_def digit_val_def)
  next
    case False
    then have "hd (show_nat n) \<noteq> CHR ''0''" using hd_show_nat by simp
    then show ?thesis
      using value_end_no_digit(2)[OF assms] tw dw neg show_nat_nonempty[of n]
      by (simp add: scan_number_def Let_def digits_value_show_nat)
  qed
qed

lemma scan_number_show_int:
  assumes "value_end rest"
  shows "scan_number (show_int i @ rest) = Some (JInt i, rest)"
proof (cases "i < 0")
  case False
  then show ?thesis
    using scan_number_show_nat[OF assms, of "nat i"] by (simp add: show_int_def)
next
  case True
  define n where "n = nat (- i)"
  have n: "0 < n" "i = - int n" using True by (simp_all add: n_def)
  have tw: "takeWhile is_digit (show_nat n @ rest) = show_nat n"
    and dw: "dropWhile is_digit (show_nat n @ rest) = rest"
    using takeWhile_run[OF show_nat_digits value_end_no_digit(1)[OF assms]] by simp_all
  have "hd (show_nat n) \<noteq> CHR ''0''" using hd_show_nat n(1) by simp
  then show ?thesis
    using value_end_no_digit(2)[OF assms] tw dw show_nat_nonempty[of n] True
    by (simp add: scan_number_def Let_def digits_value_show_nat show_int_def n_def[symmetric] n(2))
qed


subsection \<open>How a written value begins\<close>

lemma hd_show_int: "show_int i = c # t \<Longrightarrow> c = CHR ''-'' \<or> is_digit c"
  using show_nat_digits[of "nat i"] show_nat_nonempty[of "nat i"]
  by (cases "show_nat (nat i)") (auto simp: show_int_def split: if_splits)

lemma number_start:
  assumes "c = CHR ''-'' \<or> is_digit c"
  shows "\<not> is_ws c" "c \<noteq> dquote" "c \<noteq> CHR ''{''" "c \<noteq> CHR ''[''" "c \<noteq> CHR '']''" "c \<noteq> CHR ''}''"
    "c \<noteq> CHR ''n''" "c \<noteq> CHR ''t''" "c \<noteq> CHR ''f''"
  using assms by (auto simp: is_digit_def is_ws_def)

lemma json_dumps_start:
  "\<exists>c t. json_dumps v = c # t \<and> \<not> is_ws c \<and> c \<noteq> CHR '']'' \<and> c \<noteq> CHR ''}''"
proof (cases v)
  case (JInt i)
  obtain c t where ct: "show_int i = c # t"
    using show_nat_nonempty[of "nat i"] by (cases "show_int i") (auto simp: show_int_def split: if_splits)
  then show ?thesis
    using number_start[OF hd_show_int[OF ct]] JInt by simp
qed (auto simp: is_ws_def encode_basestring_ascii_def)

lemma skip_ws_start: "\<not> is_ws c \<Longrightarrow> skip_ws (c # t) = c # t"
  by (simp add: skip_ws_def)

lemma skip_ws_dumps: "skip_ws (json_dumps v @ r) = json_dumps v @ r"
  using json_dumps_start[of v] by (auto simp: skip_ws_start)

lemma skip_ws_space_dumps: "skip_ws (CHR '' '' # json_dumps v @ r) = json_dumps v @ r"
  using skip_ws_dumps[of v r] by (simp add: skip_ws_def is_ws_def)

lemma skip_ws_encoded: "skip_ws (encode_basestring_ascii k @ r) = encode_basestring_ascii k @ r"
  by (simp add: encode_basestring_ascii_def skip_ws_def is_ws_def)

lemma skip_ws_space_encoded:
  "skip_ws (CHR '' '' # encode_basestring_ascii k @ r) = encode_basestring_ascii k @ r"
  by (simp add: encode_basestring_ascii_def skip_ws_def is_ws_def)

lemma join_comma_cons: "ys \<noteq> [] \<Longrightarrow> join_comma (y # ys) = y @ '', '' @ join_comma ys"
  by (cases ys) simp_all

subsection \<open>Lists\<close>

lemma scan_array_elements:
  assumes "xs \<noteq> []"
    and "\<And>x n rest. x \<in> set xs \<Longrightarrow> length (json_dumps x) \<le> n \<Longrightarrow> value_end rest
          \<Longrightarrow> scan_once n (json_dumps x @ rest) = Some (x, rest)"
    and "length (join_comma (map json_dumps xs)) < n"
  shows "scan_array n (join_comma (map json_dumps xs) @ CHR '']'' # rest) = Some (xs, rest)"
  using assms
proof (induction xs arbitrary: n rule: list_nonempty_induct)
  case (single x)
  obtain m where n: "n = Suc m" using single.prems(2) by (cases n) auto
  have "scan_once m (json_dumps x @ CHR '']'' # rest) = Some (x, CHR '']'' # rest)"
    using single.prems(2) n by (intro single.prems(1)) (simp_all add: value_end_def)
  then show ?case
    by (simp add: n skip_ws_def is_ws_def)
next
  case (cons x xs)
  obtain m where n: "n = Suc m" using cons.prems(2) by (cases n) auto
  have jc: "join_comma (map json_dumps (x # xs)) = json_dumps x @ '', '' @ join_comma (map json_dumps xs)"
    using cons.hyps by (simp add: join_comma_cons)
  have len: "length (json_dumps x) \<le> m" "length (join_comma (map json_dumps xs)) < m"
    using cons.prems(2) unfolding jc n by simp_all
  have first: "scan_once m (json_dumps x @ CHR '','' # CHR '' '' # join_comma (map json_dumps xs) @ CHR '']'' # rest)
      = Some (x, CHR '','' # CHR '' '' # join_comma (map json_dumps xs) @ CHR '']'' # rest)"
    using len(1) by (intro cons.prems(1)) (simp_all add: value_end_def)
  obtain y ys where xs: "xs = y # ys" using cons.hyps by (cases xs) auto
  obtain u where u: "join_comma (map json_dumps xs) = json_dumps y @ u"
    by (cases ys) (simp_all add: xs)
  have sk: "skip_ws (CHR '' '' # join_comma (map json_dumps xs) @ CHR '']'' # rest)
      = join_comma (map json_dumps xs) @ CHR '']'' # rest"
    unfolding u using skip_ws_space_dumps[of y "u @ CHR '']'' # rest"] by simp
  have tail: "scan_array m (join_comma (map json_dumps xs) @ CHR '']'' # rest) = Some (xs, rest)"
    using len(2) cons.prems(1) by (intro cons.IH) simp_all
  show ?case
    unfolding jc n using first sk tail
    by (simp add: skip_ws_def[of "CHR '','' # _"] is_ws_def)
qed


subsection \<open>Dictionaries\<close>

lemma scan_object_members:
  assumes "ps \<noteq> []"
    and "\<And>k v n rest. (k, v) \<in> set ps \<Longrightarrow> length (json_dumps v) \<le> n \<Longrightarrow> value_end rest
          \<Longrightarrow> scan_once n (json_dumps v @ rest) = Some (v, rest)"
    and "length (join_comma (map (\<lambda>(k, v). encode_basestring_ascii k @ '': '' @ json_dumps v) ps)) < n"
  shows "scan_object n
           (join_comma (map (\<lambda>(k, v). encode_basestring_ascii k @ '': '' @ json_dumps v) ps)
              @ CHR ''}'' # rest)
       = Some (ps, rest)"
  using assms
proof (induction ps arbitrary: n rule: list_nonempty_induct)
  case (single p)
  obtain k v where p: "p = (k, v)" by (cases p)
  obtain m where n: "n = Suc m" using single.prems(2) by (cases n) auto
  have "scan_once m (json_dumps v @ CHR ''}'' # rest) = Some (v, CHR ''}'' # rest)"
    using single.prems(2) n p by (intro single.prems(1)[of k]) (simp_all add: value_end_def)
  then show ?case
    using skip_ws_space_dumps[of v "CHR ''}'' # rest"]
    by (simp add: n p encode_basestring_ascii_def scanstring_escaped
        skip_ws_def[of "CHR '':'' # _"] skip_ws_def[of "CHR ''}'' # _"] is_ws_def)
next
  case (cons p ps)
  obtain k v where p: "p = (k, v)" by (cases p)
  obtain m where n: "n = Suc m" using cons.prems(2) by (cases n) auto
  define member where "member = (\<lambda>(k, v). encode_basestring_ascii k @ '': '' @ json_dumps v)"
  have jc: "join_comma (map member (p # ps)) = member p @ '', '' @ join_comma (map member ps)"
    using cons.hyps by (simp add: join_comma_cons)
  have len: "length (json_dumps v) \<le> m" "length (join_comma (map member ps)) < m"
    using cons.prems(2) unfolding member_def[symmetric] jc n by (simp_all add: member_def p)
  have first: "scan_once m (json_dumps v @ CHR '','' # CHR '' '' # join_comma (map member ps) @ CHR ''}'' # rest)
      = Some (v, CHR '','' # CHR '' '' # join_comma (map member ps) @ CHR ''}'' # rest)"
    using len(1) p by (intro cons.prems(1)[of k]) (simp_all add: value_end_def)
  obtain q qs where ps: "ps = q # qs" using cons.hyps by (cases ps) auto
  obtain k' v' where q: "q = (k', v')" by (cases q)
  obtain u where u: "join_comma (map member ps) = encode_basestring_ascii k' @ u"
    by (cases qs) (simp_all add: ps q member_def)
  have sk: "skip_ws (CHR '' '' # join_comma (map member ps) @ CHR ''}'' # rest)
      = join_comma (map member ps) @ CHR ''}'' # rest"
    unfolding u using skip_ws_space_encoded[of k' "u @ CHR ''}'' # rest"] by simp
  have tail: "scan_object m (join_comma (map member ps) @ CHR ''}'' # rest) = Some (ps, rest)"
  proof -
    have a: "scan_once n (json_dumps v @ rest) = Some (v, rest)"
      if "(k, v) \<in> set ps" "length (json_dumps v) \<le> n" "value_end rest" for k v n rest
      using that cons.prems(1)[of k v n rest] by simp
    have b: "length (join_comma (map (\<lambda>(k, v). encode_basestring_ascii k @ '': '' @ json_dumps v) ps)) < m"
      using len(2) by (simp add: member_def)
    show ?thesis
      unfolding member_def by (rule cons.IH[OF a b])
  qed
  have "scan_object (Suc m) (member p @ '', '' @ join_comma (map member ps) @ CHR ''}'' # rest)
      = Some (p # ps, rest)"
    using first sk tail skip_ws_space_dumps[of v "CHR '','' # CHR '' '' # join_comma (map member ps) @ CHR ''}'' # rest"]
    by (simp add: p member_def encode_basestring_ascii_def scanstring_escaped
        skip_ws_def[of "CHR '':'' # _"] skip_ws_def[of "CHR '','' # _"] is_ws_def)
  then show ?case
    unfolding member_def[symmetric] jc n by simp
qed

lemma dict_set_fresh: "k \<notin> fst ` set d \<Longrightarrow> dict_set k v d = d @ [(k, v)]"
  by (induction d) auto

lemma foldl_dict_set:
  "distinct (map fst (d @ ps)) \<Longrightarrow> foldl (\<lambda>d (k, v). dict_set k v d) d ps = d @ ps"
proof (induction ps arbitrary: d)
  case Nil
  then show ?case by simp
next
  case (Cons p ps)
  obtain k v where p: "p = (k, v)" by (cases p)
  have "dict_set k v d = d @ [(k, v)]"
    using Cons.prems p by (intro dict_set_fresh) auto
  moreover have "distinct (map fst ((d @ [(k, v)]) @ ps))"
    using Cons.prems p by simp
  ultimately show ?case
    using Cons.IH[of "d @ [(k, v)]"] p by simp
qed

lemma py_dict_distinct: "distinct (map fst ps) \<Longrightarrow> py_dict ps = ps"
  using foldl_dict_set[of "[]" ps] by (simp add: py_dict_def)


subsection \<open>Every document\<close>

lemma scan_once_number:
  assumes "c = CHR ''-'' \<or> is_digit c"
  shows "scan_once (Suc m) (c # t) = scan_number (c # t)"
  using number_start[OF assms] by simp

lemma scan_once_dumps:
  assumes "wf_json v" and "length (json_dumps v) \<le> n" and "value_end rest"
  shows "scan_once n (json_dumps v @ rest) = Some (v, rest)"
  using assms
proof (induction v arbitrary: n rest)
  case JNull
  then obtain m where "n = Suc m" by (cases n) auto
  then show ?case by simp
next
  case (JBool b)
  then obtain m where "n = Suc m" by (cases n) (auto split: if_splits)
  then show ?case by simp
next
  case (JInt i)
  obtain c t where ct: "show_int i = c # t"
    using show_nat_nonempty[of "nat i"] by (cases "show_int i") (auto simp: show_int_def split: if_splits)
  obtain m where n: "n = Suc m" using JInt.prems(2) ct by (cases n) auto
  have "scan_once (Suc m) (c # (t @ rest)) = scan_number (c # (t @ rest))"
    by (rule scan_once_number[OF hd_show_int[OF ct]])
  then show ?case
    using scan_number_show_int[OF JInt.prems(3), of i] by (simp add: n ct)
next
  case (JStr s)
  then obtain m where "n = Suc m" by (cases n) (auto simp: encode_basestring_ascii_def)
  then show ?case by (simp add: encode_basestring_ascii_def scanstring_escaped)
next
  case (JList xs)
  obtain m where n: "n = Suc m" using JList.prems(2) by (cases n) auto
  show ?case
  proof (cases "xs = []")
    case True
    then show ?thesis by (simp add: n skip_ws_def is_ws_def)
  next
    case False
    define body where "body = join_comma (map json_dumps xs)"
    obtain y ys where xs: "xs = y # ys" using False by (cases xs) auto
    obtain u where u: "body = json_dumps y @ u"
      by (cases ys) (simp_all add: xs body_def)
    obtain c r where cr: "json_dumps y = c # r" "\<not> is_ws c" "c \<noteq> CHR '']''"
      using json_dumps_start[of y] by blast
    have sk: "skip_ws (body @ CHR '']'' # rest) = c # r @ u @ CHR '']'' # rest"
      using skip_ws_start[OF cr(2)] by (simp add: u cr(1))
    have elems: "scan_array m (body @ CHR '']'' # rest) = Some (xs, rest)"
      unfolding body_def
    proof (rule scan_array_elements[OF False])
      fix x k rest'
      assume "x \<in> set xs" "length (json_dumps x) \<le> k" "value_end rest'"
      then show "scan_once k (json_dumps x @ rest') = Some (x, rest')"
        using JList.IH[of x k rest'] JList.prems(1) by simp
    next
      show "length (join_comma (map json_dumps xs)) < m"
        using JList.prems(2) by (simp add: n)
    qed
    have "scan_once (Suc m) (CHR ''['' # body @ CHR '']'' # rest) = Some (JList xs, rest)"
      using sk elems cr(3) by (simp add: u cr(1))
    then show ?thesis by (simp add: n body_def)
  qed
next
  case (JDict ps)
  obtain m where n: "n = Suc m" using JDict.prems(2) by (cases n) auto
  show ?case
  proof (cases "ps = []")
    case True
    then show ?thesis by (simp add: n skip_ws_def is_ws_def py_dict_def)
  next
    case False
    define body where
      "body = join_comma (map (\<lambda>(k, v). encode_basestring_ascii k @ '': '' @ json_dumps v) ps)"
    obtain q qs where ps: "ps = q # qs" using False by (cases ps) auto
    obtain k' v' where q: "q = (k', v')" by (cases q)
    obtain u where u: "body = dquote # u"
      by (cases qs) (simp_all add: ps q body_def encode_basestring_ascii_def)
    have sk: "skip_ws (body @ CHR ''}'' # rest) = dquote # u @ CHR ''}'' # rest"
      by (simp add: u skip_ws_def is_ws_def)
    have members: "scan_object m (body @ CHR ''}'' # rest) = Some (ps, rest)"
      unfolding body_def
    proof (rule scan_object_members[OF False])
      fix k v j rest'
      assume "(k, v) \<in> set ps" "length (json_dumps v) \<le> j" "value_end rest'"
      then show "scan_once j (json_dumps v @ rest') = Some (v, rest')"
        using JDict.IH[of "(k, v)" v j rest'] JDict.prems(1) by auto
    next
      show "length (join_comma (map (\<lambda>(k, v). encode_basestring_ascii k @ '': '' @ json_dumps v) ps)) < m"
        using JDict.prems(2) by (simp add: n)
    qed
    have "py_dict ps = ps"
      using JDict.prems(1) by (simp add: py_dict_distinct)
    then have "scan_once (Suc m) (CHR ''{'' # body @ CHR ''}'' # rest) = Some (JDict ps, rest)"
      using sk members by (simp add: u)
    then show ?thesis by (simp add: n body_def)
  qed
qed

lemma json_loads_dumps: "wf_json v \<Longrightarrow> json_loads (json_dumps v) = Some v"
  using scan_once_dumps[of v "Suc (length (json_dumps v))" "[]"] skip_ws_dumps[of v "[]"]
  by (simp add: json_loads_def value_end_def skip_ws_def)


section \<open>Writing a document and loading it again\<close>

lemma split_slash_plain: "CHR ''/'' \<notin> set s \<Longrightarrow> split_slash s = [s]"
  by (induction s) auto

lemma cached_file_plain:
  assumes "CHR ''/'' \<notin> set key"
  shows "cached_file key = [''DEFAULT_CACHE_DIR'', key @ ''.json'']"
proof -
  have "CHR ''/'' \<notin> set (key @ ''.json'')" using assms by simp
  then have s: "split_slash (key @ ''.json'') = [key @ ''.json'']"
    by (rule split_slash_plain)
  have a: "\<not> is_absolute (key @ ''.json'')"
    using assms by (cases key) (auto simp: is_absolute_def)
  have d: "key @ ''.json'' \<noteq> ''.''"
  proof
    assume "key @ ''.json'' = ''.''"
    then have "length (key @ ''.json'') = length ''.''" by (rule arg_cong)
    then show False by simp
  qed
  have c: "CACHE_DIR = [''DEFAULT_CACHE_DIR'']"
    by code_simp
  show ?thesis
    using s a d by (simp add: cached_file_def joinpath_def path_parts_def c)
qed




text \<open>A key without a path separator names a file directly in the cache directory.\<close>

lemma plain_key_round_trip:
  assumes "CHR ''/'' \<notin> set key" and "CACHE_DIR \<in> dirs fs" and "cached_file key \<notin> dirs fs"
    and "wf_json doc"
  shows "save_to_cache fs key doc
           = Inr (fs\<lparr>files := (files fs)(cached_file key \<mapsto> json_dumps doc)\<rparr>)"
    and "load_file_from_cache (fs\<lparr>files := (files fs)(cached_file key \<mapsto> json_dumps doc)\<rparr>) key
           = Inr doc"
proof -
  have c: "CACHE_DIR = [''DEFAULT_CACHE_DIR'']" by code_simp
  have p: "parent (cached_file key) = CACHE_DIR"
    by (simp add: cached_file_plain[OF assms(1)] parent_def c)
  have d: "\<not> is_dir fs (cached_file key)"
    using assms(3) by (simp add: is_dir_def cached_file_plain[OF assms(1)])
  show "save_to_cache fs key doc
           = Inr (fs\<lparr>files := (files fs)(cached_file key \<mapsto> json_dumps doc)\<rparr>)"
    using d assms(2) by (simp add: save_to_cache_def open_w_def write_text_def p is_dir_def)
  show "load_file_from_cache (fs\<lparr>files := (files fs)(cached_file key \<mapsto> json_dumps doc)\<rparr>) key
           = Inr doc"
    using json_loads_dumps[OF assms(4)]
    by (simp add: load_file_from_cache_def path_exists_def open_r_def)
qed

section \<open>How the generator ends\<close>

text \<open>
  After the last date the generator returns, except when the end date is 9999-12-31:
  the step past the last day of the calendar then raises \<^verbatim>\<open>OverflowError\<close>, after every
  date of the range has been yielded.
\<close>

lemma date_range_outcome:
  assumes "valid_date y1 m1 d1" and "valid_date y2 m2 d2"
    and "toordinal (midnight y1 m1 d1) \<le> toordinal (midnight y2 m2 d2)"
  shows "snd (generate_daily_date_strings (iso_date y1 m1 d1) (iso_date y2 m2 d2)) =
           (if y2 = 9999 \<and> m2 = 12 \<and> d2 = 31
            then Raised (OverflowError ''date value out of range'')
            else StopIteration)"
proof -
  have "snd (daily_loop (midnight y1 m1 d1) (midnight y2 m2 d2)) =
      (if toordinal (midnight y1 m1 d1) \<le> toordinal (midnight y2 m2 d2) \<and> is_max_date (midnight y2 m2 d2)
       then Raised (OverflowError ''date value out of range'') else StopIteration)"
    using daily_loop_correct[OF valid_midnight[OF assms(1)] valid_midnight[OF assms(2)]
        same_time_midnight] by blast
  then show ?thesis
    using assms(3) generate_on_dates[OF assms] by (simp add: is_max_date_def midnight_def)
qed

text \<open>
  A start string with a time of day keeps that time on every step, so the end date
  itself is left out when the end string has none.
\<close>

lemma timestamp_start_skips_end:
  "generate_daily_date_strings ''2024-01-01T12:00'' ''2024-01-03''
     = ([''2024-01-01'', ''2024-01-02''], StopIteration)"
  by code_simp

end
